theory Spec2Isabelle
  imports Complex_Main "HOL-Library.Char_ord" "HOL-Library.List_Lexorder" "HOL-Library.Log_Nat"
begin

section \<open>The keyword matcher of \<^verbatim>\<open>cli_runner.py\<close>\<close>

text \<open>
  The matcher is three functions of \<^verbatim>\<open>src/cli_runner.py\<close>:
  \<^verbatim>\<open>
  def simple_tokenizer(text):
      return re.findall(r"\b\w+\b", text.lower())

  def clean_and_tokenize(text):
      return set(simple_tokenizer(text))

  def compare_keywords(resume_text, job_desc_text):
      resume_words = clean_and_tokenize(resume_text)
      job_keywords = clean_and_tokenize(job_desc_text)
      matched_keywords = resume_words & job_keywords
      missing_keywords = job_keywords - resume_words
      score = (len(matched_keywords) / len(job_keywords)) * 100 if job_keywords else 0
      return round(score, 2), sorted(matched_keywords), sorted(missing_keywords)
  \<close>
  They are embedded below together with the parts of the Python runtime they call: the
  regular-expression search for \<^verbatim>\<open>\b\w+\b\<close>, true division and multiplication of
  binary64 floats, \<^verbatim>\<open>round\<close>, and \<^verbatim>\<open>sorted\<close> on a set of strings.
\<close>

subsection \<open>Strings and the character tables of the runtime\<close>

text \<open>
  A Python \<^verbatim>\<open>str\<close> is a sequence of code points; it is a list over a type \<open>'c\<close> of
  code points here, ordered as Python orders them (\<open>'c\<close> is a linear order where strings
  are sorted). Two things the source uses are tables of the interpreter and not code of
  the repository: which code points \<^verbatim>\<open>\w\<close> matches, and what \<^verbatim>\<open>str.lower()\<close> returns
  (a function of the whole string: Unicode lowercasing can change the length and looks at
  the neighbours of a capital sigma). They are the two fields of a \<open>text_runtime\<close>, so
  every general theorem below holds whatever these tables are.
\<close>

record 'c text_runtime =
  str_lower :: "'c list \<Rightarrow> 'c list"
  is_word :: "'c \<Rightarrow> bool"

text \<open>
  On ASCII text the tables are known: \<^verbatim>\<open>lower\<close> maps \<^verbatim>\<open>A-Z\<close> to \<^verbatim>\<open>a-z\<close> one
  character at a time and \<^verbatim>\<open>\w\<close> is \<^verbatim>\<open>[a-zA-Z0-9_]\<close>. The concrete scenarios use this
  instance, with \<^typ>\<open>char\<close> ordered by code (\<open>Char_ord\<close>).
\<close>

definition ascii_lower :: "char \<Rightarrow> char" where
  "ascii_lower c =
     (if CHR ''A'' \<le> c \<and> c \<le> CHR ''Z'' then char_of (of_char c + (32::nat)) else c)"

definition ascii_word :: "char \<Rightarrow> bool" where
  "ascii_word c =
     ((CHR ''a'' \<le> c \<and> c \<le> CHR ''z'') \<or> (CHR ''A'' \<le> c \<and> c \<le> CHR ''Z'') \<or>
      (CHR ''0'' \<le> c \<and> c \<le> CHR ''9'') \<or> c = CHR ''_'')"

definition ascii_rt :: "char text_runtime" where
  "ascii_rt = \<lparr>str_lower = map ascii_lower, is_word = ascii_word\<rparr>"

subsection \<open>\<^verbatim>\<open>re.findall(r"\b\w+\b", s)\<close>\<close>

text \<open>
  A position of the subject string is the code point before it (\<open>None\<close> at the start)
  and the rest of the string from it. \<^verbatim>\<open>\b\<close> holds at a position when exactly one of
  the two code points around it is a word character, the outside of the string counting
  as a non-word character.
\<close>

definition word_at :: "('c \<Rightarrow> bool) \<Rightarrow> 'c option \<Rightarrow> bool" where
  "word_at isw p = (case p of None \<Rightarrow> False | Some c \<Rightarrow> isw c)"

definition at_boundary :: "('c \<Rightarrow> bool) \<Rightarrow> 'c option \<Rightarrow> 'c list \<Rightarrow> bool" where
  "at_boundary isw before rest =
     (word_at isw before \<noteq> word_at isw (case rest of [] \<Rightarrow> None | c # _ \<Rightarrow> Some c))"

text \<open>
  The greedy \<^verbatim>\<open>\w+\<close> first takes every word character it can. The engine then tries
  the closing \<^verbatim>\<open>\b\<close>, and on failure gives the last character back and tries again,
  as long as at least one character stays taken. \<open>give_back\<close> is that loop: \<open>taken\<close>
  holds the characters taken so far, the last one first.
\<close>

fun give_back :: "('c \<Rightarrow> bool) \<Rightarrow> 'c list \<Rightarrow> 'c list \<Rightarrow> ('c list \<times> 'c list) option" where
  "give_back isw [] rest = None"
| "give_back isw (c # taken) rest =
     (if at_boundary isw (Some c) rest then Some (rev (c # taken), rest)
      else give_back isw taken (c # rest))"

text \<open>
  One attempt to match the whole pattern at a position: the opening \<^verbatim>\<open>\b\<close>, then
  \<^verbatim>\<open>\w+\<close> with its closing \<^verbatim>\<open>\b\<close>. The result is the matched text and the rest of
  the string behind it.
\<close>

definition match_here :: "('c \<Rightarrow> bool) \<Rightarrow> 'c option \<Rightarrow> 'c list \<Rightarrow> ('c list \<times> 'c list) option" where
  "match_here isw before s =
     (if at_boundary isw before s
      then give_back isw (rev (takeWhile isw s)) (dropWhile isw s)
      else None)"

lemma give_back_length:
  "give_back isw taken rest = Some (tok, rest') \<Longrightarrow>
     tok \<noteq> [] \<and> length tok + length rest' = length taken + length rest"
  by (induction isw taken rest rule: give_back.induct) (auto split: if_splits)

lemma match_here_shorter:
  assumes "match_here isw before s = Some (tok, rest')"
  shows "length rest' < length s"
proof -
  from assms have "give_back isw (rev (takeWhile isw s)) (dropWhile isw s) = Some (tok, rest')"
    by (simp add: match_here_def split: if_splits)
  from give_back_length[OF this]
  have "tok \<noteq> []"
    and "length tok + length rest' = length (takeWhile isw s) + length (dropWhile isw s)"
    by simp_all
  moreover have "length (takeWhile isw s) + length (dropWhile isw s) = length s"
    by (metis length_append takeWhile_dropWhile_id)
  ultimately show ?thesis by (cases tok) auto
qed

text \<open>
  \<^verbatim>\<open>findall\<close> scans from left to right: where the pattern matches, the match is
  reported and the scan goes on behind it (a match of \<^verbatim>\<open>\w+\<close> is never empty); where
  it does not, the scan moves one character on. It stops at the end of the string, where
  the pattern cannot match.
\<close>

function findall :: "('c \<Rightarrow> bool) \<Rightarrow> 'c option \<Rightarrow> 'c list \<Rightarrow> 'c list list" where
  "findall isw before s =
     (case match_here isw before s of
        Some (tok, rest) \<Rightarrow> tok # findall isw (Some (last tok)) rest
      | None \<Rightarrow> (case s of [] \<Rightarrow> [] | c # cs \<Rightarrow> findall isw (Some c) cs))"
  by pat_completeness auto
termination
  by (relation "measure (\<lambda>(isw, before, s). length s)") (auto dest: match_here_shorter)

subsection \<open>The tokenizer\<close>

definition simple_tokenizer :: "'c text_runtime \<Rightarrow> 'c list \<Rightarrow> 'c list list" where
  "simple_tokenizer R text = findall (is_word R) None (str_lower R text)"

definition clean_and_tokenize :: "'c text_runtime \<Rightarrow> 'c list \<Rightarrow> 'c list set" where
  "clean_and_tokenize R text = set (simple_tokenizer R text)"

text \<open>
  The specification describes a token in words: a maximal contiguous run of word
  characters of the lowercased text. \<open>maximal_word_run isw s t\<close> says so of \<open>t\<close> in
  \<open>s\<close>: \<open>t\<close> is a non-empty block of word characters of \<open>s\<close>, with no word character
  directly before it and none directly behind it. (This definition follows the
  specification; \<open>findall\<close> above follows the source.)
\<close>

definition maximal_word_run :: "('c \<Rightarrow> bool) \<Rightarrow> 'c list \<Rightarrow> 'c list \<Rightarrow> bool" where
  "maximal_word_run isw s t =
     (\<exists>pre post. s = pre @ t @ post \<and> t \<noteq> [] \<and> (\<forall>c\<in>set t. isw c) \<and>
        (pre = [] \<or> \<not> isw (last pre)) \<and> (post = [] \<or> \<not> isw (hd post)))"

text \<open>
  For the induction the same property is stated for a suffix of the text: \<open>w\<close> tells
  whether the character before the suffix is a word character.
\<close>

definition run_from :: "('c \<Rightarrow> bool) \<Rightarrow> bool \<Rightarrow> 'c list \<Rightarrow> 'c list \<Rightarrow> bool" where
  "run_from isw w s t =
     (\<exists>pre post. s = pre @ t @ post \<and> t \<noteq> [] \<and> (\<forall>c\<in>set t. isw c) \<and>
        (if pre = [] then \<not> w else \<not> isw (last pre)) \<and> (post = [] \<or> \<not> isw (hd post)))"

subsection \<open>Numbers: \<^verbatim>\<open>int\<close>, binary64 \<^verbatim>\<open>float\<close>, and \<^verbatim>\<open>round\<close>\<close>

text \<open>
  The score is the \<^verbatim>\<open>int\<close> 0 or a \<^verbatim>\<open>float\<close>. A finite float is the rational number
  it stands for. Every float operation of the source is the exact operation followed by
  rounding to the nearest binary64 number, ties to the even significand; \<open>fl64\<close> is that
  rounding. \<open>ilog2 x\<close> is the binary exponent \<open>\<lfloor>log\<^sub>2 x\<rfloor>\<close> of a positive rational, a
  binary64 number has 53 significant bits, and its least unit is \<open>2\<^sup>-\<^sup>1\<^sup>0\<^sup>7\<^sup>4\<close>
  (subnormal numbers). Magnitudes of \<open>2\<^sup>1\<^sup>0\<^sup>2\<^sup>4\<close> and above, where binary64 has
  infinities, do not occur: every float of \<open>compare_keywords\<close> is at most 100
  (lemma \<open>score_float_bounds\<close>).
\<close>

definition round_half_even :: "rat \<Rightarrow> int" where
  "round_half_even x =
     (let n = \<lfloor>x\<rfloor>; r = x - of_int n
      in if r < 1 / 2 then n else if 1 / 2 < r then n + 1 else if even n then n else n + 1)"

definition ilog2 :: "rat \<Rightarrow> int" where
  "ilog2 x = (if 1 \<le> x then int (floorlog 2 (nat \<lfloor>x\<rfloor>)) - 1
              else - int (floorlog 2 (nat (\<lceil>1 / x\<rceil> - 1))))"

definition float_exponent :: "rat \<Rightarrow> int" where
  "float_exponent x = max (ilog2 \<bar>x\<bar> - 52) (- 1074)"

definition fl64 :: "rat \<Rightarrow> rat" where
  "fl64 x =
     (if x = 0 then 0
      else of_int (round_half_even (x / power_int 2 (float_exponent x))) *
           power_int 2 (float_exponent x))"

datatype py_error = ZeroDivisionError | OverflowError

datatype pynum = PyInt int | PyFloat rat

fun num_value :: "pynum \<Rightarrow> rat" where
  "num_value (PyInt i) = of_int i"
| "num_value (PyFloat x) = x"

text \<open>
  \<^verbatim>\<open>a / b\<close> on two \<^verbatim>\<open>int\<close>s is true division: it raises \<^verbatim>\<open>ZeroDivisionError\<close>
  when \<open>b\<close> is 0, gives the float nearest to the exact quotient otherwise, and raises
  \<^verbatim>\<open>OverflowError\<close> when that is too large for a float.
\<close>

definition py_truediv :: "int \<Rightarrow> int \<Rightarrow> py_error + rat" where
  "py_truediv a b =
     (if b = 0 then Inl ZeroDivisionError
      else if 2 ^ 1024 \<le> \<bar>fl64 (of_int a / of_int b)\<bar> then Inl OverflowError
      else Inr (fl64 (of_int a / of_int b)))"

text \<open>\<^verbatim>\<open>x * 100\<close> on a float and an \<^verbatim>\<open>int\<close>: the \<^verbatim>\<open>int\<close> becomes the float 100.0.\<close>

definition float_mul_int :: "rat \<Rightarrow> int \<Rightarrow> rat" where
  "float_mul_int x i = fl64 (x * fl64 (of_int i))"

text \<open>
  \<^verbatim>\<open>round(x, ndigits)\<close> returns an \<^verbatim>\<open>int\<close> unchanged (for \<open>ndigits \<ge> 0\<close>). On a float
  it takes the decimal number with \<open>ndigits\<close> digits behind the point that is nearest to
  the exact value of \<open>x\<close>, ties to the even last digit, and returns the float nearest to
  that decimal number. The source calls it with \<open>ndigits = 2\<close>.
\<close>

fun py_round :: "pynum \<Rightarrow> nat \<Rightarrow> pynum" where
  "py_round (PyInt i) ndigits = PyInt i"
| "py_round (PyFloat x) ndigits =
     PyFloat (fl64 (of_int (round_half_even (x * 10 ^ ndigits)) / 10 ^ ndigits))"

subsection \<open>The comparison\<close>

text \<open>
  Python sets are sets; \<^verbatim>\<open>len\<close> is \<open>card\<close>, a set is true when it is not empty, and
  \<^verbatim>\<open>sorted\<close> on a set of strings is the one ascending list of its elements
  (\<open>sorted_list_of_set\<close>; strings compare lexicographically by code point, the order
  of \<open>List_Lexorder\<close>). The conditional expression evaluates the division only when
  \<^verbatim>\<open>job_keywords\<close> is not empty. An exception is the result \<open>Inl\<close>.
\<close>

definition compare_keywords ::
  "('c::linorder) text_runtime \<Rightarrow> 'c list \<Rightarrow> 'c list \<Rightarrow>
     py_error + (pynum \<times> 'c list list \<times> 'c list list)" where
  "compare_keywords R resume_text job_desc_text =
     (let resume_words = clean_and_tokenize R resume_text;
          job_keywords = clean_and_tokenize R job_desc_text;
          matched_keywords = resume_words \<inter> job_keywords;
          missing_keywords = job_keywords - resume_words
      in case (if job_keywords \<noteq> {}
               then (case py_truediv (int (card matched_keywords)) (int (card job_keywords)) of
                       Inl e \<Rightarrow> Inl e
                     | Inr q \<Rightarrow> Inr (PyFloat (float_mul_int q 100)))
               else Inr (PyInt 0)) of
           Inl e \<Rightarrow> Inl e
         | Inr score \<Rightarrow>
             Inr (py_round score 2,
                  sorted_list_of_set matched_keywords,
                  sorted_list_of_set missing_keywords))"

section \<open>Properties of the runtime model\<close>

subsection \<open>Binary exponent and rounding\<close>

lemma floorlog2_bounds:
  assumes "0 < n"
  shows "2 ^ (floorlog 2 n - 1) \<le> n \<and> n < 2 ^ floorlog 2 n"
  using assms floorlog_bounds[of n 2] by simp

lemma floorlog2_pos: "0 < n \<Longrightarrow> 0 < floorlog 2 n"
  by (simp add: floorlog_def)

lemma ilog2_bounds_ge1:
  assumes "1 \<le> x"
  shows "power_int 2 (ilog2 x) \<le> x \<and> x < power_int 2 (ilog2 x + 1)"
proof -
  define n where "n = nat \<lfloor>x\<rfloor>"
  define k where "k = floorlog 2 n"
  have fl: "1 \<le> \<lfloor>x\<rfloor>" using assms by simp
  then have npos: "0 < n" by (simp add: n_def)
  have nx: "rat_of_nat n \<le> x"
    using fl by (simp add: n_def of_nat_nat)
  have xn: "x < rat_of_nat n + 1"
    using fl floor_correct[of x] by (simp add: n_def of_nat_nat)
  have kpos: "0 < k" using npos by (simp add: k_def floorlog2_pos)
  have b: "2 ^ (k - 1) \<le> n" "n < 2 ^ k"
    using floorlog2_bounds[OF npos] by (simp_all add: k_def)
  have il: "ilog2 x = int (k - 1)"
    using assms kpos by (simp add: ilog2_def k_def n_def of_nat_diff)
  have "(2::rat) ^ (k - 1) = rat_of_nat (2 ^ (k - 1))" by simp
  also have "\<dots> \<le> rat_of_nat n" using b(1) of_nat_le_iff by blast
  finally have lo: "(2::rat) ^ (k - 1) \<le> x" using nx by linarith
  have "n + 1 \<le> 2 ^ k" using b(2) by simp
  then have "rat_of_nat (n + 1) \<le> rat_of_nat (2 ^ k)"
    using of_nat_le_iff by blast
  also have "\<dots> = (2::rat) ^ k" by simp
  finally have hi: "x < (2::rat) ^ k" using xn by simp
  have k1: "int (k - 1) + 1 = int k" using kpos by simp
  show ?thesis
    unfolding il k1 using lo hi by simp
qed

lemma ilog2_bounds_lt1:
  assumes "0 < x" "x < 1"
  shows "power_int 2 (ilog2 x) \<le> x \<and> x < power_int 2 (ilog2 x + 1)"
proof -
  define y where "y = 1 / x"
  define n where "n = nat (\<lceil>y\<rceil> - 1)"
  define k where "k = floorlog 2 n"
  have y1: "1 < y" using assms by (simp add: y_def)
  then have c: "2 \<le> \<lceil>y\<rceil>" by (simp add: le_ceiling_iff) 
  then have npos: "0 < n" by (simp add: n_def)
  have ny: "rat_of_nat n < y"
  proof -
    have "rat_of_nat n = of_int (\<lceil>y\<rceil> - 1)" using c by (simp add: n_def of_nat_nat)
    also have "\<dots> < y" by (metis ceiling_correct of_int_diff of_int_1)
    finally show ?thesis .
  qed
  have yn: "y \<le> rat_of_nat n + 1"
  proof -
    have "rat_of_nat n + 1 = of_int \<lceil>y\<rceil>" using c by (simp add: n_def of_nat_nat)
    then show ?thesis by (simp add: le_of_int_ceiling)
  qed
  have kpos: "0 < k" using npos by (simp add: k_def floorlog2_pos)
  have b: "2 ^ (k - 1) \<le> n" "n < 2 ^ k"
    using floorlog2_bounds[OF npos] by (simp_all add: k_def)
  have il: "ilog2 x = - int k"
    using assms by (simp add: ilog2_def k_def n_def y_def)
  have "(2::rat) ^ (k - 1) = rat_of_nat (2 ^ (k - 1))" by simp
  also have "\<dots> \<le> rat_of_nat n" using b(1) of_nat_le_iff by blast
  finally have lo: "(2::rat) ^ (k - 1) < y" using ny by linarith
  have "n + 1 \<le> 2 ^ k" using b(2) by simp
  then have "rat_of_nat (n + 1) \<le> rat_of_nat (2 ^ k)"
    using of_nat_le_iff by blast
  also have "\<dots> = (2::rat) ^ k" by simp
  finally have hi: "y \<le> (2::rat) ^ k" using yn by simp
  have x: "x = 1 / y" using assms by (simp add: y_def)
  have ypos: "0 < y" using y1 by simp
  have p1: "power_int (2::rat) (- int k) = 1 / 2 ^ k"
    by (simp add: power_int_minus_divide)
  have p2: "power_int (2::rat) (- int k + 1) = 1 / 2 ^ (k - 1)"
  proof -
    have e: "- int k + 1 = - int (k - 1)" using kpos by simp
    show ?thesis unfolding e by (simp only: power_int_minus_divide power_int_of_nat)
  qed
  have "1 / 2 ^ k \<le> 1 / y"
    using hi ypos by (simp add: frac_le)
  then have a: "power_int 2 (ilog2 x) \<le> x"
    by (simp only: il p1 x[symmetric])
  have "1 / y < 1 / 2 ^ (k - 1)"
    using lo by (simp add: frac_less2)
  then have b: "x < power_int 2 (ilog2 x + 1)"
    by (simp only: il p2 x[symmetric])
  from a b show ?thesis by simp
qed

lemma ilog2_bounds:
  assumes "0 < x"
  shows "power_int 2 (ilog2 x) \<le> x \<and> x < power_int 2 (ilog2 x + 1)"
  using assms ilog2_bounds_ge1[of x] ilog2_bounds_lt1[of x] by (cases "1 \<le> x") auto

lemma ilog2_unique:
  assumes "power_int 2 k \<le> x" "x < power_int 2 (k + 1)"
  shows "ilog2 x = k"
proof -
  have "0 < power_int (2::rat) k" by simp
  then have xpos: "0 < x" using assms(1) by linarith
  note b = ilog2_bounds[OF xpos]
  have "power_int (2::rat) k < power_int 2 (ilog2 x + 1)"
    using assms(1) b by linarith
  then have 1: "k < ilog2 x + 1"
    using power_int_increasing[of "ilog2 x + 1" k "2::rat"] by (cases "k < ilog2 x + 1") auto
  have "power_int (2::rat) (ilog2 x) < power_int 2 (k + 1)"
    using assms(2) b by linarith
  then have 2: "ilog2 x < k + 1"
    using power_int_increasing[of "k + 1" "ilog2 x" "2::rat"] by (cases "ilog2 x < k + 1") auto
  from 1 2 show ?thesis by simp
qed

lemma round_half_even_of_int: "round_half_even (of_int n) = n"
  by (simp add: round_half_even_def)

lemma round_half_even_ge_floor: "\<lfloor>x\<rfloor> \<le> round_half_even x"
  by (simp add: round_half_even_def Let_def)

lemma round_half_even_le_ceil: "round_half_even x \<le> \<lfloor>x\<rfloor> + 1"
  by (simp add: round_half_even_def Let_def)

lemma round_half_even_nonneg: "0 \<le> x \<Longrightarrow> 0 \<le> round_half_even x"
  using round_half_even_ge_floor[of x] by (simp add: order_trans[of 0 "\<lfloor>x\<rfloor>"])

lemma round_half_even_le_int:
  assumes "x \<le> of_int n"
  shows "round_half_even x \<le> n"
proof (cases "x = of_int n")
  case True
  then show ?thesis by (simp add: round_half_even_of_int)
next
  case False
  then have "x < of_int n" using assms by simp
  then have "\<lfloor>x\<rfloor> < n" by (simp add: floor_less_iff)
  then show ?thesis using round_half_even_le_ceil[of x] by linarith
qed

lemma fl64_nonneg: "0 \<le> x \<Longrightarrow> 0 \<le> fl64 x"
  by (simp add: fl64_def round_half_even_nonneg)

lemma float_exponent_small:
  assumes "0 < x" "x < 2 ^ 53"
  shows "float_exponent x \<le> 0"
proof -
  have "power_int 2 (ilog2 x) \<le> x" using ilog2_bounds[OF assms(1)] by simp
  then have "power_int (2::rat) (ilog2 x) < power_int 2 53" using assms(2) by simp
  then have "ilog2 x < 53"
    using power_int_increasing[of 53 "ilog2 x" "2::rat"] by (cases "ilog2 x < 53") auto
  then show ?thesis using assms(1) by (simp add: float_exponent_def)
qed

lemma fl64_le_int:
  assumes "0 < x" "x \<le> of_int c" "c < 2 ^ 53"
  shows "fl64 x \<le> of_int c"
proof -
  define e where "e = float_exponent x"
  define q where "q = power_int (2::rat) e"
  have "x < 2 ^ 53"
  proof -
    have "rat_of_int c < rat_of_int (2 ^ 53)" using assms(3) of_int_less_iff by blast
    then show ?thesis using assms(2) by simp
  qed
  then have e0: "e \<le> 0" using float_exponent_small[OF assms(1)] by (simp add: e_def)
  have qpos: "0 < q" by (simp add: q_def)
  have qinv: "1 / q = of_int (2 ^ nat (- e))"
    using e0 by (simp add: q_def power_int_def field_simps)
  have "x / q \<le> of_int c / q" using assms(2) qpos by (simp add: divide_right_mono)
  also have "of_int c / q = of_int (c * 2 ^ nat (- e))"
  proof -
    have "rat_of_int c / q = of_int c * (1 / q)" by simp
    also have "\<dots> = of_int c * of_int (2 ^ nat (- e))" by (simp only: qinv)
    finally show ?thesis by simp
  qed
  finally have "round_half_even (x / q) \<le> c * 2 ^ nat (- e)"
    by (rule round_half_even_le_int)
  then have "rat_of_int (round_half_even (x / q)) \<le> of_int (c * 2 ^ nat (- e))"
    using of_int_le_iff by blast
  then have "of_int (round_half_even (x / q)) * q \<le> of_int (c * 2 ^ nat (- e)) * q"
    using qpos by (simp add: mult_right_mono)
  also have "of_int (c * 2 ^ nat (- e)) * q = of_int c"
    using qinv qpos by (simp add: field_simps)
  finally show ?thesis
    using assms(1) by (simp add: fl64_def e_def q_def)
qed

lemma fl64_of_int:
  assumes "0 < c" "c < 2 ^ 53"
  shows "fl64 (of_int c) = of_int c"
proof -
  define x where "x = rat_of_int c"
  define e where "e = float_exponent x"
  define q where "q = power_int (2::rat) e"
  have xpos: "0 < x" using assms(1) by (simp add: x_def)
  have "x < 2 ^ 53"
  proof -
    have "rat_of_int c < rat_of_int (2 ^ 53)" using assms(2) of_int_less_iff by blast
    then show ?thesis by (simp add: x_def)
  qed
  then have e0: "e \<le> 0" using float_exponent_small[OF xpos] by (simp add: e_def)
  have qpos: "0 < q" by (simp add: q_def)
  have qinv: "1 / q = of_int (2 ^ nat (- e))"
    using e0 by (simp add: q_def power_int_def field_simps)
  have "x / q = of_int (c * 2 ^ nat (- e))"
  proof -
    have "x / q = of_int c * (1 / q)" by (simp add: x_def)
    also have "\<dots> = of_int c * of_int (2 ^ nat (- e))" by (simp only: qinv)
    finally show ?thesis by simp
  qed
  then have "of_int (round_half_even (x / q)) * q = of_int (c * 2 ^ nat (- e)) * q"
    by (simp only: round_half_even_of_int)
  also have "\<dots> = of_int c"
    using qinv qpos by (simp add: field_simps)
  finally show ?thesis
    using xpos by (simp add: fl64_def e_def q_def x_def)
qed

lemma fl64_1: "fl64 1 = 1"
  using fl64_of_int[of 1] by simp

lemma fl64_100: "fl64 100 = 100"
  using fl64_of_int[of 100] by simp

lemma round_half_even_eqI:
  assumes "\<bar>x - of_int n\<bar> < 1 / 2"
  shows "round_half_even x = n"
proof (cases "of_int n \<le> x")
  have a: "x - of_int n < 1 / 2" "- (x - of_int n) < 1 / 2"
    using assms unfolding abs_less_iff by simp_all
  case True
  have b: "x - of_int n < 1 / 2" by (rule a)
  have f: "\<lfloor>x\<rfloor> = n"
  proof (rule floor_unique)
    show "of_int n \<le> x" by (rule True)
    show "x < of_int n + 1" using b by linarith
  qed
  show ?thesis using b by (simp add: round_half_even_def f)
next
  case False
  have a: "- (x - of_int n) < 1 / 2"
    using assms unfolding abs_less_iff by simp
  have "rat_of_int (n - 1) = of_int n - 1" by simp
  then have b: "1 / 2 < x - of_int (n - 1)" using a by linarith
  have f: "\<lfloor>x\<rfloor> = n - 1"
  proof (rule floor_unique)
    show "of_int (n - 1) \<le> x" using b by linarith
    show "x < of_int (n - 1) + 1" using False by simp
  qed
  have "\<not> x - of_int (n - 1) < 1 / 2" using b by linarith
  then show ?thesis using b by (simp add: round_half_even_def f del: of_int_diff)
qed

lemma fl64_eqI:
  assumes "power_int 2 k \<le> \<bar>x\<bar>" "\<bar>x\<bar> < power_int 2 (k + 1)"
    and "e = max (k - 52) (- 1074)"
    and "\<bar>x / power_int 2 e - of_int n\<bar> < 1 / 2"
  shows "fl64 x = of_int n * power_int 2 e"
proof -
  have "ilog2 \<bar>x\<bar> = k" using assms(1,2) by (rule ilog2_unique)
  then have e: "float_exponent x = e" by (simp add: float_exponent_def assms(3))
  have "0 < power_int (2::rat) k" by simp
  then have "0 < \<bar>x\<bar>" using assms(1) by linarith
  then have "x \<noteq> 0" by simp
  moreover have "round_half_even (x / power_int 2 e) = n"
    using assms(4) by (rule round_half_even_eqI)
  ultimately show ?thesis by (simp add: fl64_def e)
qed

subsection \<open>The floats of the score\<close>

lemma fl64_le_int_nonneg:
  assumes "0 \<le> x" "x \<le> of_int c" "c < 2 ^ 53"
  shows "fl64 x \<le> of_int c"
proof (cases "x = 0")
  case True
  then show ?thesis using assms(2) by (simp add: fl64_def)
next
  case False
  then have "0 < x" using assms(1) by simp
  then show ?thesis using assms(2,3) by (rule fl64_le_int)
qed

lemma ratio_bounds:
  assumes "0 \<le> a" "a \<le> b" "0 < b"
  shows "0 \<le> rat_of_int a / of_int b" and "rat_of_int a / of_int b \<le> 1"
  using assms by (simp_all add: divide_le_eq_1)

lemma fl64_ratio_bounds:
  assumes "0 \<le> a" "a \<le> b" "0 < b"
  shows "0 \<le> fl64 (of_int a / of_int b)" and "fl64 (of_int a / of_int b) \<le> 1"
proof -
  note r = ratio_bounds[OF assms]
  show "0 \<le> fl64 (of_int a / of_int b)" using r(1) by (rule fl64_nonneg)
  show "fl64 (of_int a / of_int b) \<le> 1"
    using fl64_le_int_nonneg[of "of_int a / of_int b" 1] r by simp
qed

lemma py_truediv_ratio:
  assumes "0 \<le> a" "a \<le> b" "0 < b"
  shows "py_truediv a b = Inr (fl64 (of_int a / of_int b))"
proof -
  note f = fl64_ratio_bounds[OF assms]
  have "\<bar>fl64 (of_int a / of_int b)\<bar> \<le> 1" using f by simp
  moreover have "(1::rat) < 2 ^ 1024" by (rule one_less_power) simp_all
  ultimately have "\<not> 2 ^ 1024 \<le> \<bar>fl64 (of_int a / of_int b)\<bar>" by linarith
  then show ?thesis using assms(3) by (simp add: py_truediv_def)
qed

lemma float_mul_int_100_bounds:
  assumes "0 \<le> q" "q \<le> 1"
  shows "0 \<le> float_mul_int q 100" and "float_mul_int q 100 \<le> 100"
proof -
  have m: "float_mul_int q 100 = fl64 (q * 100)"
    by (simp add: float_mul_int_def fl64_100)
  have "0 \<le> q * 100" using assms(1) by simp
  then show "0 \<le> float_mul_int q 100" unfolding m by (rule fl64_nonneg)
  have "q * 100 \<le> of_int 100" using assms(2) by simp
  then show "float_mul_int q 100 \<le> 100"
    unfolding m using fl64_le_int_nonneg[of "q * 100" 100] assms(1) by simp
qed

lemma round2_bounds:
  assumes "0 \<le> x" "x \<le> 100"
  shows "0 \<le> num_value (py_round (PyFloat x) 2)" and "num_value (py_round (PyFloat x) 2) \<le> 100"
proof -
  define n where "n = round_half_even (x * 10 ^ 2)"
  have "0 \<le> x * 10 ^ 2" using assms(1) by simp
  then have n0: "0 \<le> n" unfolding n_def by (rule round_half_even_nonneg)
  have "x * 10 ^ 2 \<le> of_int 10000" using assms(2) by simp
  then have n1: "n \<le> 10000" unfolding n_def by (rule round_half_even_le_int)
  have v: "num_value (py_round (PyFloat x) 2) = fl64 (of_int n / 10 ^ 2)"
    by (simp add: n_def)
  have lo: "0 \<le> rat_of_int n / 10 ^ 2" using n0 by simp
  have "rat_of_int n \<le> rat_of_int 10000" using n1 of_int_le_iff by blast
  then have hi: "rat_of_int n / 10 ^ 2 \<le> of_int 100" by simp
  show "0 \<le> num_value (py_round (PyFloat x) 2)" unfolding v using lo by (rule fl64_nonneg)
  show "num_value (py_round (PyFloat x) 2) \<le> 100"
    unfolding v using fl64_le_int_nonneg[OF lo hi] by simp
qed

subsection \<open>Rounding errors\<close>

lemma round_half_even_error: "\<bar>of_int (round_half_even x) - x\<bar> \<le> 1 / 2"
proof -
  define n where "n = \<lfloor>x\<rfloor>"
  have b: "of_int n \<le> x" "x < of_int n + 1" unfolding n_def by linarith+
  consider "x - of_int n < 1 / 2" | "1 / 2 < x - of_int n" | "x - of_int n = 1 / 2" by linarith
  then show ?thesis
  proof cases
    case 1
    then have "round_half_even x = n" by (simp add: round_half_even_def n_def)
    then show ?thesis using 1 b by simp
  next
    case 2
    then have "round_half_even x = n + 1" by (simp add: round_half_even_def n_def)
    then show ?thesis using 2 b by simp
  next
    case 3
    then have "round_half_even x = n \<or> round_half_even x = n + 1"
      by (simp add: round_half_even_def n_def Let_def)
    then show ?thesis
    proof
      assume "round_half_even x = n"
      then show ?thesis using 3 by simp
    next
      assume "round_half_even x = n + 1"
      then have "rat_of_int (round_half_even x) - x = 1 - (x - of_int n)" by simp
      then show ?thesis unfolding 3 by simp
    qed
  qed
qed

lemma fl64_error: "\<bar>fl64 x - x\<bar> \<le> power_int 2 (float_exponent x) / 2"
proof (cases "x = 0")
  case True
  then show ?thesis by (simp add: fl64_def)
next
  case False
  define q where "q = power_int (2::rat) (float_exponent x)"
  have qpos: "0 < q" by (simp add: q_def)
  have "fl64 x - x = (of_int (round_half_even (x / q)) - x / q) * q"
    using False qpos by (simp add: fl64_def q_def algebra_simps)
  then have "\<bar>fl64 x - x\<bar> = \<bar>of_int (round_half_even (x / q)) - x / q\<bar> * q"
    using qpos by (simp add: abs_mult)
  also have "\<dots> \<le> 1 / 2 * q"
    using round_half_even_error[of "x / q"] qpos by (intro mult_right_mono) simp_all
  finally show ?thesis by (simp add: q_def)
qed

lemma float_exponent_le:
  assumes "0 < x" "x < power_int 2 K" "- 1021 \<le> K"
  shows "float_exponent x \<le> K - 53"
proof -
  have "power_int 2 (ilog2 x) \<le> x" using ilog2_bounds[OF assms(1)] by simp
  then have "power_int (2::rat) (ilog2 x) < power_int 2 K" using assms(2) by simp
  then have "ilog2 x < K"
    using power_int_increasing[of K "ilog2 x" "2::rat"] by (cases "ilog2 x < K") auto
  then show ?thesis using assms(1,3) by (simp add: float_exponent_def)
qed

lemma fl64_error_le:
  assumes "0 \<le> x" "x < power_int 2 K" "- 1021 \<le> K"
  shows "\<bar>fl64 x - x\<bar> \<le> power_int 2 (K - 54)"
proof (cases "x = 0")
  case True
  then show ?thesis by (simp add: fl64_def)
next
  case False
  then have "0 < x" using assms(1) by simp
  then have "float_exponent x \<le> K - 53" using assms(2,3) by (rule float_exponent_le)
  then have "power_int (2::rat) (float_exponent x) \<le> power_int 2 (K - 53)"
    by (intro power_int_increasing) simp_all
  then have "power_int (2::rat) (float_exponent x) / 2 \<le> power_int 2 (K - 53) / 2" by simp
  also have "power_int (2::rat) (K - 53) / 2 = power_int 2 (K - 54)"
  proof -
    have "power_int (2::rat) (K - 53) = power_int 2 (K - 54 + 1)" by simp
    also have "\<dots> = power_int 2 (K - 54) * 2" by (subst power_int_add_1) simp_all
    finally show ?thesis by simp
  qed
  finally show ?thesis using fl64_error[of x] by linarith
qed

text \<open>
  The float score against the exact percentage \<open>100 m / n\<close>: the three float roundings
  add less than \<open>2\<^sup>-\<^sup>4\<^sup>5\<close> to the half cent of the rounding to two decimals.
\<close>

lemma score_accuracy:
  assumes "m \<le> n" "0 < n"
  shows "\<bar>num_value (py_round (PyFloat (float_mul_int (fl64 (of_nat m / of_nat n)) 100)) 2)
          - 100 * of_nat m / of_nat n\<bar> \<le> 1 / 200 + 1 / 2 ^ 45"
proof -
  define x where "x = rat_of_nat m / of_nat n"
  define q where "q = fl64 x"
  define p where "p = fl64 (q * 100)"
  define d where "d = rat_of_int (round_half_even (p * 10 ^ 2)) / 10 ^ 2"
  have x01: "0 \<le> x" "x \<le> 1" using assms by (simp_all add: x_def)
  have xi: "x = of_int (int m) / of_int (int n)" by (simp add: x_def)
  have a: "0 \<le> int m" "int m \<le> int n" "0 < int n" using assms by simp_all
  have q01: "0 \<le> q" "q \<le> 1" unfolding q_def xi using fl64_ratio_bounds[OF a] by simp_all
  have pm: "p = float_mul_int q 100" by (simp add: p_def float_mul_int_def fl64_100)
  have p0: "0 \<le> p" "p \<le> 100" unfolding pm using q01 by (rule float_mul_int_100_bounds)+
  have e1: "\<bar>q - x\<bar> \<le> 1 / 2 ^ 53"
  proof -
    have "\<bar>fl64 x - x\<bar> \<le> power_int 2 (1 - 54)"
      using x01 by (intro fl64_error_le) simp_all
    then show ?thesis by (simp add: q_def power_int_minus_divide)
  qed
  have e2: "\<bar>p - q * 100\<bar> \<le> 1 / 2 ^ 47"
  proof -
    have "\<bar>fl64 (q * 100) - q * 100\<bar> \<le> power_int 2 (7 - 54)"
      using q01 by (intro fl64_error_le) simp_all
    then show ?thesis by (simp add: p_def power_int_minus_divide)
  qed
  have e3: "\<bar>d - p\<bar> \<le> 1 / 200"
  proof -
    define r where "r = rat_of_int (round_half_even (p * 10 ^ 2)) - p * 10 ^ 2"
    have r: "\<bar>r\<bar> \<le> 1 / 2" unfolding r_def by (rule round_half_even_error)
    have "d - p = r / 100" by (simp add: d_def r_def field_simps)
    then have "\<bar>d - p\<bar> = \<bar>r\<bar> / 100" by (simp only: abs_divide abs_numeral)
    then show ?thesis using r by linarith
  qed
  have d0: "0 \<le> d" "d \<le> 100"
  proof -
    have "0 \<le> p * 10 ^ 2" using p0(1) by simp
    then have "0 \<le> round_half_even (p * 10 ^ 2)" by (rule round_half_even_nonneg)
    then show "0 \<le> d" by (simp add: d_def)
    have "p * 10 ^ 2 \<le> of_int 10000" using p0(2) by simp
    then have "round_half_even (p * 10 ^ 2) \<le> 10000" by (rule round_half_even_le_int)
    then have "rat_of_int (round_half_even (p * 10 ^ 2)) \<le> rat_of_int 10000"
      using of_int_le_iff by blast
    then show "d \<le> 100" by (simp add: d_def)
  qed
  have e4: "\<bar>fl64 d - d\<bar> \<le> 1 / 2 ^ 47"
  proof -
    have "\<bar>fl64 d - d\<bar> \<le> power_int 2 (7 - 54)"
      using d0 by (intro fl64_error_le) simp_all
    then show ?thesis by (simp add: power_int_minus_divide)
  qed
  have v: "num_value (py_round (PyFloat (float_mul_int (fl64 (of_nat m / of_nat n)) 100)) 2) = fl64 d"
    by (simp add: d_def pm q_def x_def)
  have t: "100 * rat_of_nat m / of_nat n = x * 100" by (simp add: x_def)
  have e1': "\<bar>q * 100 - x * 100\<bar> \<le> 100 / 2 ^ 53"
  proof -
    have k: "(100::rat) / 2 ^ 53 = 100 * (1 / 2 ^ 53)" by simp
    have u: "q - x \<le> 1 / 2 ^ 53" using e1 by (rule abs_le_D1)
    have l: "- (q - x) \<le> 1 / 2 ^ 53" using e1 by (rule abs_le_D2)
    show ?thesis unfolding k
    proof (rule abs_leI)
      show "q * 100 - x * 100 \<le> 100 * (1 / 2 ^ 53)" using u by linarith
      show "- (q * 100 - x * 100) \<le> 100 * (1 / 2 ^ 53)" using l by linarith
    qed
  qed
  have c: "(100::rat) / 2 ^ 53 + 1 / 2 ^ 47 + 1 / 2 ^ 47 \<le> 1 / 2 ^ 45" by simp
  have "\<bar>fl64 d - x * 100\<bar> \<le> \<bar>fl64 d - d\<bar> + \<bar>d - p\<bar> + \<bar>p - q * 100\<bar> + \<bar>q * 100 - x * 100\<bar>"
    by linarith
  then have "\<bar>fl64 d - x * 100\<bar> \<le> 1 / 200 + 1 / 2 ^ 45"
    using e1' e2 e3 e4 c by linarith
  then show ?thesis unfolding v t .
qed

section \<open>Properties of the tokenizer\<close>

subsection \<open>The search, one character at a time\<close>

lemma match_here_Nil: "match_here isw before [] = None"
  by (simp add: match_here_def)

lemma match_here_nonword: "\<not> isw c \<Longrightarrow> match_here isw before (c # cs) = None"
  by (simp add: match_here_def)

lemma match_here_inside:
  "word_at isw before \<Longrightarrow> isw c \<Longrightarrow> match_here isw before (c # cs) = None"
  by (simp add: match_here_def at_boundary_def word_at_def)

lemma boundary_after_run:
  assumes "isw c"
  shows "at_boundary isw (Some c) (dropWhile isw cs)"
proof (cases "dropWhile isw cs")
  case Nil
  show ?thesis unfolding at_boundary_def Nil using assms by (simp add: word_at_def)
next
  case (Cons d ds)
  then have "\<not> isw d" using hd_dropWhile[of isw cs] by simp
  then show ?thesis unfolding at_boundary_def Cons using assms by (simp add: word_at_def)
qed

lemma give_back_run:
  assumes "run \<noteq> []" "\<forall>c\<in>set run. isw c"
  shows "give_back isw (rev run) (dropWhile isw cs) = Some (run, dropWhile isw cs)"
proof -
  obtain c taken where r: "rev run = c # taken" using assms(1) by (cases "rev run") auto
  then have "c \<in> set run" by (metis list.set_intros(1) set_rev)
  then have "isw c" using assms(2) by simp
  then have "at_boundary isw (Some c) (dropWhile isw cs)" by (rule boundary_after_run)
  moreover have "rev (c # taken) = run" using r by (metis rev_rev_ident)
  ultimately show ?thesis unfolding r by simp
qed

lemma match_here_start:
  assumes "\<not> word_at isw before" "isw c"
  shows "match_here isw before (c # cs) = Some (c # takeWhile isw cs, dropWhile isw cs)"
proof -
  have b: "at_boundary isw before (c # cs)"
    using assms by (simp add: at_boundary_def word_at_def)
  have "give_back isw (rev (c # takeWhile isw cs)) (dropWhile isw cs) =
        Some (c # takeWhile isw cs, dropWhile isw cs)"
    using assms(2) by (intro give_back_run) (auto dest: set_takeWhileD)
  then show ?thesis using b assms(2) by (simp add: match_here_def)
qed

lemma match_here_before:
  "word_at isw b1 = word_at isw b2 \<Longrightarrow> match_here isw b1 s = match_here isw b2 s"
  by (simp add: match_here_def at_boundary_def)

lemma findall_Nil: "findall isw before [] = []"
  by (simp add: match_here_Nil)

lemma findall_before:
  assumes "word_at isw b1 = word_at isw b2"
  shows "findall isw b1 s = findall isw b2 s"
proof -
  have m: "match_here isw b1 s = match_here isw b2 s" using assms by (rule match_here_before)
  show ?thesis
    by (subst findall.simps, subst (2) findall.simps) (simp only: m)
qed

lemma findall_nonword: "\<not> isw c \<Longrightarrow> findall isw before (c # cs) = findall isw (Some c) cs"
  by (subst findall.simps) (simp add: match_here_nonword)

lemma findall_inside:
  "word_at isw before \<Longrightarrow> isw c \<Longrightarrow> findall isw before (c # cs) = findall isw (Some c) cs"
  by (subst findall.simps) (simp add: match_here_inside)

lemma findall_skip:
  "word_at isw before \<Longrightarrow> findall isw before s = findall isw before (dropWhile isw s)"
proof (induction s arbitrary: before)
  case Nil
  show ?case by simp
next
  case (Cons c cs)
  show ?case
  proof (cases "isw c")
    case True
    have w: "word_at isw (Some c)" using True by (simp add: word_at_def)
    have "findall isw before (c # cs) = findall isw (Some c) cs"
      using Cons.prems True by (rule findall_inside)
    also have "\<dots> = findall isw (Some c) (dropWhile isw cs)" using w by (rule Cons.IH)
    also have "\<dots> = findall isw before (dropWhile isw cs)"
      using w Cons.prems by (intro findall_before) simp
    finally show ?thesis using True by simp
  next
    case False
    then show ?thesis by simp
  qed
qed

lemma findall_start:
  assumes "\<not> word_at isw before" "isw c"
  shows "findall isw before (c # cs) = (c # takeWhile isw cs) # findall isw (Some c) cs"
proof -
  have w: "word_at isw (Some c)" using assms(2) by (simp add: word_at_def)
  have l: "isw (last (c # takeWhile isw cs))"
  proof (cases "takeWhile isw cs = []")
    case True
    then show ?thesis using assms(2) by simp
  next
    case False
    then have "last (takeWhile isw cs) \<in> set (takeWhile isw cs)" by (rule last_in_set)
    then have "isw (last (takeWhile isw cs))" using set_takeWhileD by fastforce
    then show ?thesis using False by simp
  qed
  have "findall isw before (c # cs) =
        (c # takeWhile isw cs) # findall isw (Some (last (c # takeWhile isw cs))) (dropWhile isw cs)"
    by (subst findall.simps) (simp only: match_here_start[OF assms] option.case prod.case)
  also have "findall isw (Some (last (c # takeWhile isw cs))) (dropWhile isw cs) =
        findall isw (Some c) (dropWhile isw cs)"
    using l w by (intro findall_before) (simp add: word_at_def)
  also have "\<dots> = findall isw (Some c) cs" using findall_skip[OF w, of cs] by simp
  finally show ?thesis .
qed

lemma findall_Cons:
  "findall isw before (c # cs) =
     (if isw c \<and> \<not> word_at isw before then [c # takeWhile isw cs] else []) @
     findall isw (Some c) cs"
  using findall_start[of isw before c cs] findall_inside[of isw before c cs]
    findall_nonword[of isw c before cs]
  by (cases "isw c"; cases "word_at isw before") simp_all

text \<open>From here on the search is unfolded by these equations only.\<close>

declare findall.simps [simp del]

subsection \<open>Maximal runs of word characters\<close>

lemma takeWhile_run:
  assumes "\<forall>x\<in>set t. P x" "post = [] \<or> \<not> P (hd post)"
  shows "takeWhile P (t @ post) = t"
proof (cases post)
  case Nil
  then show ?thesis using assms(1) by simp
next
  case (Cons d ds)
  then have "\<not> P d" using assms(2) by simp
  then have "takeWhile P (t @ d # ds) = takeWhile P t" by (rule takeWhile_tail)
  then show ?thesis using assms(1) Cons by simp
qed

lemma run_from_Nil: "\<not> run_from isw w [] t"
  by (simp add: run_from_def)

lemma run_from_ConsD:
  assumes "run_from isw w (c # cs) t"
  shows "(\<not> w \<and> isw c \<and> t = c # takeWhile isw cs) \<or> run_from isw (isw c) cs t"
proof -
  from assms obtain pre post where d: "c # cs = pre @ t @ post" and t: "t \<noteq> []"
    and a: "\<forall>x\<in>set t. isw x"
    and l: "if pre = [] then \<not> w else \<not> isw (last pre)"
    and r: "post = [] \<or> \<not> isw (hd post)"
    unfolding run_from_def by blast
  show ?thesis
  proof (cases pre)
    case Nil
    then obtain t' where t': "t = c # t'" and cs: "cs = t' @ post"
      using d t by (cases t) auto
    have "\<forall>x\<in>set t'. isw x" using a t' by simp
    then have "takeWhile isw cs = t'" unfolding cs using r by (rule takeWhile_run)
    then show ?thesis using l Nil a t' by simp
  next
    case (Cons p pre')
    then have cs: "cs = pre' @ t @ post" and p: "p = c" using d by simp_all
    have "if pre' = [] then \<not> isw c else \<not> isw (last pre')"
      using l Cons p by (simp split: if_splits)
    then have "run_from isw (isw c) cs t"
      unfolding run_from_def using cs t a r by blast
    then show ?thesis by simp
  qed
qed

lemma run_from_first:
  assumes "\<not> w" "isw c"
  shows "run_from isw w (c # cs) (c # takeWhile isw cs)"
proof -
  have "c # cs = [] @ (c # takeWhile isw cs) @ dropWhile isw cs" by simp
  moreover have "\<forall>x\<in>set (c # takeWhile isw cs). isw x"
    using assms(2) by (auto dest: set_takeWhileD)
  moreover have "dropWhile isw cs = [] \<or> \<not> isw (hd (dropWhile isw cs))"
    using hd_dropWhile[of isw cs] by blast
  ultimately show ?thesis
    unfolding run_from_def using assms(1) by (intro exI[of _ "[]"] exI[of _ "dropWhile isw cs"]) simp
qed

lemma run_from_later:
  assumes "run_from isw (isw c) cs t"
  shows "run_from isw w (c # cs) t"
proof -
  from assms obtain pre post where d: "cs = pre @ t @ post" and t: "t \<noteq> []"
    and a: "\<forall>x\<in>set t. isw x"
    and l: "if pre = [] then \<not> isw c else \<not> isw (last pre)"
    and r: "post = [] \<or> \<not> isw (hd post)"
    unfolding run_from_def by blast
  have "c # cs = (c # pre) @ t @ post" using d by simp
  moreover have "\<not> isw (last (c # pre))" using l by (simp split: if_splits)
  ultimately show ?thesis
    unfolding run_from_def using t a r by (intro exI[of _ "c # pre"] exI[of _ post]) simp
qed

lemma run_from_Cons:
  "run_from isw w (c # cs) t \<longleftrightarrow>
     (\<not> w \<and> isw c \<and> t = c # takeWhile isw cs) \<or> run_from isw (isw c) cs t"
  using run_from_ConsD[of isw w c cs t] run_from_first[of w isw c cs] run_from_later[of isw c cs t w]
  by blast

lemma set_findall:
  "set (findall isw before s) = {t. run_from isw (word_at isw before) s t}"
proof (induction s arbitrary: before)
  case Nil
  show ?case by (simp add: findall_Nil run_from_Nil)
next
  case (Cons c cs)
  have w: "word_at isw (Some c) = isw c" by (simp add: word_at_def)
  have "set (findall isw (Some c) cs) = {t. run_from isw (isw c) cs t}"
    using Cons.IH[of "Some c"] by (simp only: w)
  then show ?case
    by (auto simp: findall_Cons run_from_Cons)
qed

lemma maximal_word_run_eq: "maximal_word_run isw s t = run_from isw False s t"
proof -
  have e: "(if pre = [] then \<not> False else \<not> isw (last pre)) \<longleftrightarrow> (pre = [] \<or> \<not> isw (last pre))"
    for pre :: "'a list"
    by simp
  show ?thesis unfolding maximal_word_run_def run_from_def e ..
qed

lemma clean_and_tokenize_runs:
  "clean_and_tokenize R text = {t. maximal_word_run (is_word R) (str_lower R text) t}"
  by (simp add: clean_and_tokenize_def simple_tokenizer_def set_findall maximal_word_run_eq word_at_def)

subsection \<open>Texts joined by a separator\<close>

lemma findall_append_sep:
  assumes "\<not> isw sp"
  shows "findall isw before (s1 @ sp # s2) = findall isw before s1 @ findall isw None s2"
proof (induction s1 arbitrary: before)
  case Nil
  have "findall isw before (sp # s2) = findall isw (Some sp) s2"
    using assms by (rule findall_nonword)
  also have "\<dots> = findall isw None s2"
    using assms by (intro findall_before) (simp add: word_at_def)
  finally show ?case by (simp add: findall_Nil)
next
  case (Cons c cs)
  have "takeWhile isw (cs @ sp # s2) = takeWhile isw cs" using assms by (rule takeWhile_tail)
  then show ?case using Cons.IH[of "Some c"] by (simp add: findall_Cons)
qed

lemma simple_tokenizer_append_sep:
  assumes "\<not> is_word R sp"
    and "str_lower R (s1 @ sp # s2) = str_lower R s1 @ sp # str_lower R s2"
  shows "simple_tokenizer R (s1 @ sp # s2) = simple_tokenizer R s1 @ simple_tokenizer R s2"
  unfolding simple_tokenizer_def assms(2) using assms(1) by (rule findall_append_sep)

section \<open>Properties of the comparison\<close>

subsection \<open>The result of the comparison\<close>

lemma finite_tokens: "finite (clean_and_tokenize R t)"
  by (simp add: clean_and_tokenize_def)

lemma card_tokens_pos: "clean_and_tokenize R t \<noteq> {} \<Longrightarrow> 0 < card (clean_and_tokenize R t)"
  by (simp add: card_gt_0_iff finite_tokens)

lemma card_matched_le:
  "card (clean_and_tokenize R r \<inter> clean_and_tokenize R j) \<le> card (clean_and_tokenize R j)"
  by (simp add: card_mono finite_tokens)

text \<open>
  Neither exception of the division is raised, so \<open>compare_keywords\<close> always returns
  a triple.
\<close>

lemma compare_keywords_eq:
  fixes R :: "('c::linorder) text_runtime"
  defines "m \<equiv> \<lambda>r j. card (clean_and_tokenize R r \<inter> clean_and_tokenize R j)"
  shows "compare_keywords R r j =
     Inr (if clean_and_tokenize R j = {} then PyInt 0
          else py_round (PyFloat (float_mul_int
                 (fl64 (of_int (int (m r j)) / of_int (int (card (clean_and_tokenize R j))))) 100)) 2,
          sorted_list_of_set (clean_and_tokenize R r \<inter> clean_and_tokenize R j),
          sorted_list_of_set (clean_and_tokenize R j - clean_and_tokenize R r))"
proof (cases "clean_and_tokenize R j = {}")
  case True
  then show ?thesis by (simp add: compare_keywords_def)
next
  case False
  have "py_truediv (int (m r j)) (int (card (clean_and_tokenize R j))) =
        Inr (fl64 (of_int (int (m r j)) / of_int (int (card (clean_and_tokenize R j)))))"
    using card_tokens_pos[OF False] card_matched_le[of R r j]
    by (intro py_truediv_ratio) (simp_all add: m_def)
  then show ?thesis using False by (simp add: compare_keywords_def Let_def m_def)
qed

lemma score_float_bounds:
  assumes "m \<le> n" "0 < n"
  shows "0 \<le> float_mul_int (fl64 (of_int (int m) / of_int (int n))) 100"
    and "float_mul_int (fl64 (of_int (int m) / of_int (int n))) 100 \<le> 100"
proof -
  have a: "0 \<le> int m" "int m \<le> int n" "0 < int n" using assms by simp_all
  note q = fl64_ratio_bounds[OF a]
  show "0 \<le> float_mul_int (fl64 (of_int (int m) / of_int (int n))) 100"
    using q by (rule float_mul_int_100_bounds)
  show "float_mul_int (fl64 (of_int (int m) / of_int (int n))) 100 \<le> 100"
    using q by (rule float_mul_int_100_bounds)
qed

lemma lexord_sorted_list_of_set:
  fixes A :: "('c::linorder) list set"
  shows "sorted_wrt (\<lambda>a b. (a, b) \<in> lexord {(u, v). u < v}) (sorted_list_of_set A)"
proof -
  have "sorted_wrt (<) (sorted_list_of_set A)" by simp
  then show ?thesis by (simp add: list_less_def[abs_def])
qed

subsection \<open>Evaluation of concrete scores\<close>

lemma job_tokens:
  "simple_tokenizer ascii_rt ''Looking for a Python developer with AWS and SQL skills'' =
     [''looking'', ''for'', ''a'', ''python'', ''developer'', ''with'', ''aws'', ''and'', ''sql'', ''skills'']"
  by code_simp

lemma resume_tokens:
  "simple_tokenizer ascii_rt ''Python developer with SQL experience'' =
     [''python'', ''developer'', ''with'', ''sql'', ''experience'']"
  by code_simp

lemma fl64_2_5: "fl64 (2 / 5) = 3602879701896397 / 9007199254740992"
proof -
  have "fl64 (2 / 5) = of_int 7205759403792794 * power_int 2 (- 54)"
    by (rule fl64_eqI[where k = "- 2"]) (simp_all add: power_int_minus_divide)
  then show ?thesis by (simp add: power_int_minus_divide)
qed

lemma fl64_2_5_times_100: "fl64 (3602879701896397 / 9007199254740992 * 100) = 40"
proof -
  have "fl64 (3602879701896397 / 9007199254740992 * 100) = of_int 5629499534213120 * power_int 2 (- 47)"
    by (rule fl64_eqI[where k = 5]) (simp_all add: power_int_minus_divide)
  then show ?thesis by (simp add: power_int_minus_divide)
qed

lemma py_round_40: "py_round (PyFloat 40) 2 = PyFloat 40"
proof -
  have "(40::rat) * 10 ^ 2 = of_int 4000" by simp
  then have "round_half_even (40 * 10 ^ 2) = 4000" by (simp only: round_half_even_of_int)
  moreover have "fl64 40 = 40" using fl64_of_int[of 40] by simp
  ultimately show ?thesis by simp
qed

lemma fl64_1_3: "fl64 (1 / 3) = 6004799503160661 / 18014398509481984"
proof -
  have "fl64 (1 / 3) = of_int 6004799503160661 * power_int 2 (- 54)"
    by (rule fl64_eqI[where k = "- 2"]) (simp_all add: power_int_minus_divide)
  then show ?thesis by (simp add: power_int_minus_divide)
qed

lemma fl64_1_3_times_100:
  "fl64 (6004799503160661 / 18014398509481984 * 100) = 2345624805922133 / 70368744177664"
proof -
  have "fl64 (6004799503160661 / 18014398509481984 * 100) =
        of_int 4691249611844266 * power_int 2 (- 47)"
    by (rule fl64_eqI[where k = 5]) (simp_all add: power_int_minus_divide)
  then show ?thesis by (simp add: power_int_minus_divide)
qed

lemma round_33: "round_half_even (2345624805922133 / 70368744177664 * 10 ^ 2) = 3333"
  by (rule round_half_even_eqI) simp

lemma fl64_33_33: "fl64 (3333 / 100) = 2345390243441541 / 70368744177664"
proof -
  have "fl64 (3333 / 100) = of_int 4690780486883082 * power_int 2 (- 47)"
    by (rule fl64_eqI[where k = 5]) (simp_all add: power_int_minus_divide)
  then show ?thesis by (simp add: power_int_minus_divide)
qed

lemma py_round_33: "py_round (PyFloat (2345624805922133 / 70368744177664)) 2 =
    PyFloat (2345390243441541 / 70368744177664)"
proof -
  have "rat_of_int 3333 / 10 ^ 2 = 3333 / 100" by simp
  then show ?thesis by (simp only: py_round.simps round_33 fl64_33_33)
qed

section \<open>The claims\<close>

text \<open>
  In every statement \<open>R\<close> is any runtime (any tables for \<^verbatim>\<open>\w\<close> and \<^verbatim>\<open>lower\<close>) and
  the texts are any strings; \<open>ascii_rt\<close> is used where a statement is about concrete
  ASCII texts.
\<close>

text \<open>
  \<^bold>\<open>C1.\<close> For every pair of texts, \<open>compare_keywords\<close> returns (it raises nothing), and
  its score is 0 (the \<^verbatim>\<open>int\<close>) when the job description has no token, and otherwise
  the float \<^verbatim>\<open>round((|matched| / |jobTokens|) * 100, 2)\<close>, where matched is the
  intersection of the two token sets: the quotient of the two cardinalities, times 100,
  rounded to two decimal places, each step in the float arithmetic of the source. Against
  the exact percentage the score is off by at most half a unit of the second decimal
  and the error of three float roundings, less than \<open>2\<^sup>-\<^sup>4\<^sup>5\<close>.
\<close>

theorem score_formula:
  fixes R :: "('c::linorder) text_runtime"
  shows "let J = clean_and_tokenize R job_desc_text;
             M = clean_and_tokenize R resume_text \<inter> J;
             score = (if J = {} then PyInt 0
                      else py_round (PyFloat (float_mul_int
                             (fl64 (of_nat (card M) / of_nat (card J))) 100)) 2)
         in (\<exists>matched missing.
               compare_keywords R resume_text job_desc_text = Inr (score, matched, missing)) \<and>
            \<bar>num_value score - (if J = {} then 0 else 100 * of_nat (card M) / of_nat (card J))\<bar>
              \<le> 1 / 200 + 1 / 2 ^ 45"
proof (cases "clean_and_tokenize R job_desc_text = {}")
  case True
  then show ?thesis by (simp add: compare_keywords_eq)
next
  case False
  note a = score_accuracy[OF card_matched_le[of R resume_text job_desc_text] card_tokens_pos[OF False]]
  show ?thesis unfolding Let_def using False a by (simp add: compare_keywords_eq)
qed

text \<open>
  One matched token of three: the score is the float nearest to 33.33.
\<close>

theorem score_formula_witness:
  "(\<exists>matched missing.
      compare_keywords ascii_rt ''sql'' ''SQL, AWS, Python'' =
        Inr (PyFloat (2345390243441541 / 70368744177664), matched, missing)) \<and>
   \<bar>(2345390243441541 / 70368744177664 :: rat) - 100 * 1 / 3\<bar> \<le> 1 / 200 + 1 / 2 ^ 45"
proof -
  have r: "simple_tokenizer ascii_rt ''sql'' = [''sql'']" by code_simp
  have j: "simple_tokenizer ascii_rt ''SQL, AWS, Python'' = [''sql'', ''aws'', ''python'']"
    by code_simp
  have J: "clean_and_tokenize ascii_rt ''SQL, AWS, Python'' = set [''sql'', ''aws'', ''python'']"
    by (simp only: clean_and_tokenize_def j)
  have A: "clean_and_tokenize ascii_rt ''sql'' = set [''sql'']"
    by (simp only: clean_and_tokenize_def r)
  have M: "set [''sql''] \<inter> set [''sql'', ''aws'', ''python''] = set [''sql'']"
    by simp
  have c1: "card (set [''sql'']) = 1" by simp
  have c2: "card (set [''sql'', ''aws'', ''python'']) = 3" by code_simp
  have ne: "set [''sql'', ''aws'', ''python''] \<noteq> {}" by simp
  have sc: "py_round (PyFloat (float_mul_int (fl64 (of_nat 1 / of_nat 3)) 100)) 2 =
      PyFloat (2345390243441541 / 70368744177664)"
    unfolding float_mul_int_def
    by (simp only: of_nat_numeral of_nat_1 of_int_numeral fl64_1_3 fl64_100 fl64_1_3_times_100 py_round_33)
  show ?thesis
    using score_formula[of ascii_rt "''SQL, AWS, Python''" "''sql''"]
    unfolding Let_def A J M c1 c2 sc using ne by simp
qed

text \<open>
  \<^bold>\<open>C2.\<close> For every pair of texts the returned matched and missing keywords are
  disjoint, both are subsets of the job description's token set, and together they are
  that token set.
\<close>

theorem matched_missing_partition:
  fixes R :: "('c::linorder) text_runtime"
  shows "\<exists>score matched missing.
     compare_keywords R resume_text job_desc_text = Inr (score, matched, missing) \<and>
     set matched \<inter> set missing = {} \<and>
     set matched \<subseteq> clean_and_tokenize R job_desc_text \<and>
     set missing \<subseteq> clean_and_tokenize R job_desc_text \<and>
     set matched \<union> set missing = clean_and_tokenize R job_desc_text"
  unfolding compare_keywords_eq by (auto simp: finite_tokens)

text \<open>
  \<^bold>\<open>C3\<close> (as amended). When the two texts have identical token sets, nothing is
  missing and every token is matched; the score is the float 100.0 when that common token
  set is not empty, and the \<^verbatim>\<open>int\<close> 0 when it is empty (the guard
  \<^verbatim>\<open>if job_keywords else 0\<close> of the source).
\<close>

theorem identical_token_sets:
  fixes R :: "('c::linorder) text_runtime"
  assumes "clean_and_tokenize R resume_text = clean_and_tokenize R job_desc_text"
  shows "compare_keywords R resume_text job_desc_text =
     Inr (if clean_and_tokenize R job_desc_text = {} then PyInt 0 else PyFloat 100,
          sorted_list_of_set (clean_and_tokenize R job_desc_text), [])"
proof (cases "clean_and_tokenize R job_desc_text = {}")
  case True
  then show ?thesis using assms by (simp add: compare_keywords_eq)
next
  case False
  define n where "n = card (clean_and_tokenize R job_desc_text)"
  have n: "0 < n" unfolding n_def using False by (rule card_tokens_pos)
  have "rat_of_int (int n) / rat_of_int (int n) = 1" using n by simp
  then have "float_mul_int (fl64 (rat_of_int (int n) / rat_of_int (int n))) 100 = 100"
    by (simp add: float_mul_int_def fl64_1 fl64_100)
  moreover have "py_round (PyFloat 100) 2 = PyFloat 100"
  proof -
    have "(100::rat) * 10 ^ 2 = of_int 10000" by simp
    then have "round_half_even (100 * 10 ^ 2) = 10000" by (simp only: round_half_even_of_int)
    then show ?thesis by (simp add: fl64_100)
  qed
  ultimately show ?thesis using assms False by (simp add: compare_keywords_eq n_def)
qed

text \<open>
  Two texts with the same two tokens, \<^verbatim>\<open>"SQL, Python"\<close> against \<^verbatim>\<open>"python sql"\<close>:
  the score is 100.0.
\<close>

theorem identical_token_sets_witness:
  "clean_and_tokenize ascii_rt ''SQL, Python'' = clean_and_tokenize ascii_rt ''python sql'' \<and>
   compare_keywords ascii_rt ''SQL, Python'' ''python sql'' =
     Inr (PyFloat 100, [''python'', ''sql''], [])"
proof -
  have a: "simple_tokenizer ascii_rt ''SQL, Python'' = [''sql'', ''python'']" by code_simp
  have b: "simple_tokenizer ascii_rt ''python sql'' = [''python'', ''sql'']" by code_simp
  have h: "clean_and_tokenize ascii_rt ''SQL, Python'' = clean_and_tokenize ascii_rt ''python sql''"
    unfolding clean_and_tokenize_def a b by auto
  have s: "sorted_list_of_set (set [''python'', ''sql'']) = [''python'', ''sql'']" by code_simp
  show ?thesis
    using h identical_token_sets[OF h] s by (simp add: clean_and_tokenize_def b)
qed

text \<open>
  The claim as it was stated fails where both token sets are empty: two empty texts have
  identical token sets, and the score is 0, not 100.
\<close>

theorem identical_token_sets_counterexample:
  "clean_and_tokenize ascii_rt [] = clean_and_tokenize ascii_rt [] \<and>
   compare_keywords ascii_rt [] [] = Inr (PyInt 0, [], []) \<and>
   num_value (PyInt 0) \<noteq> 100"
proof -
  have "simple_tokenizer ascii_rt [] = []" by code_simp
  then have "clean_and_tokenize ascii_rt [] = {}" by (simp add: clean_and_tokenize_def)
  then show ?thesis by (simp add: compare_keywords_eq)
qed

text \<open>
  \<^bold>\<open>C4.\<close> For every resume text: a job description whose token set is empty gives the
  score 0 with no matched and no missing keyword. The empty text is such a job
  description (its lowercased form is the empty text). The result is a returned value in
  every case: the division is not evaluated when the divisor would be 0, so no
  \<^verbatim>\<open>ZeroDivisionError\<close> is raised (\<open>py_truediv a 0\<close> would be that error).
\<close>

theorem empty_job_description:
  fixes R :: "('c::linorder) text_runtime"
  shows "(clean_and_tokenize R job_desc_text = {} \<longrightarrow>
            compare_keywords R resume_text job_desc_text = Inr (PyInt 0, [], [])) \<and>
         (str_lower R [] = [] \<longrightarrow> compare_keywords R resume_text [] = Inr (PyInt 0, [], [])) \<and>
         (\<exists>result. compare_keywords R resume_text job_desc_text = Inr result)"
proof -
  have e: "compare_keywords R resume_text j = Inr (PyInt 0, [], [])"
    if "clean_and_tokenize R j = {}" for j
    using that by (simp add: compare_keywords_eq)
  have "clean_and_tokenize R [] = {}" if "str_lower R [] = []"
    using that by (simp add: clean_and_tokenize_def simple_tokenizer_def findall_Nil)
  then show ?thesis using e by (auto simp: compare_keywords_eq)
qed

text \<open>A job description of punctuation only, and the empty job description.\<close>

theorem empty_job_description_witness:
  "clean_and_tokenize ascii_rt ''++ --'' = {} \<and>
   compare_keywords ascii_rt ''Python'' ''++ --'' = Inr (PyInt 0, [], []) \<and>
   str_lower ascii_rt [] = [] \<and>
   compare_keywords ascii_rt ''Python'' [] = Inr (PyInt 0, [], [])"
proof -
  have "simple_tokenizer ascii_rt ''++ --'' = []" by code_simp
  then have h: "clean_and_tokenize ascii_rt ''++ --'' = {}" by (simp add: clean_and_tokenize_def)
  have l: "str_lower ascii_rt [] = []" by (simp add: ascii_rt_def)
  show ?thesis
    using h l empty_job_description[of ascii_rt "''++ --''" "''Python''"] by simp
qed

text \<open>
  \<^bold>\<open>C5.\<close> For every text the tokenizer gives exactly the set of maximal contiguous runs
  of word characters of the lowercased text. On ASCII text \<^verbatim>\<open>"Python"\<close> and
  \<^verbatim>\<open>"python"\<close> give the one token \<^verbatim>\<open>python\<close>, and \<^verbatim>\<open>"C++"\<close> gives the one token
  \<^verbatim>\<open>c\<close>: no punctuation is part of a token.
\<close>

theorem tokenizer_maximal_runs:
  "clean_and_tokenize R text = {t. maximal_word_run (is_word R) (str_lower R text) t} \<and>
   clean_and_tokenize ascii_rt ''Python'' = {''python''} \<and>
   clean_and_tokenize ascii_rt ''python'' = {''python''} \<and>
   clean_and_tokenize ascii_rt ''C++'' = {''c''}"
proof -
  have a: "simple_tokenizer ascii_rt ''Python'' = [''python'']" by code_simp
  have b: "simple_tokenizer ascii_rt ''python'' = [''python'']" by code_simp
  have c: "simple_tokenizer ascii_rt ''C++'' = [''c'']" by code_simp
  show ?thesis
    unfolding clean_and_tokenize_def a b c
    using clean_and_tokenize_runs[of R "text"] by (simp add: clean_and_tokenize_def)
qed

text \<open>
  In \<^verbatim>\<open>"c++"\<close> the run \<^verbatim>\<open>c\<close> is maximal; \<^verbatim>\<open>c+\<close> and \<^verbatim>\<open>++\<close> are not runs of word
  characters.
\<close>

theorem tokenizer_maximal_runs_witness:
  "maximal_word_run ascii_word ''c++'' ''c'' \<and>
   \<not> maximal_word_run ascii_word ''c++'' ''c+'' \<and>
   \<not> maximal_word_run ascii_word ''c++'' ''++''"
proof -
  have l: "str_lower ascii_rt ''C++'' = ''c++''" by code_simp
  have w: "is_word ascii_rt = ascii_word" by (simp add: ascii_rt_def)
  note T = tokenizer_maximal_runs[of ascii_rt "''C++''"]
  have e1: "clean_and_tokenize ascii_rt ''C++'' =
      {t. maximal_word_run (is_word ascii_rt) (str_lower ascii_rt ''C++'') t}"
    using T by (rule conjunct1)
  have e2: "clean_and_tokenize ascii_rt ''C++'' = {''c''}"
    using T by blast
  have "{t. maximal_word_run ascii_word ''c++'' t} = {''c''}"
    using e1[symmetric] e2 unfolding l w by (rule trans)
  then have "maximal_word_run ascii_word ''c++'' t \<longleftrightarrow> t = ''c''" for t by blast
  then show ?thesis by simp
qed

text \<open>
  \<^bold>\<open>C6.\<close> For every pair of texts the matched and the missing keywords are each
  returned in ascending lexicographic order (strictly: no keyword is repeated). The
  result is a function of the two texts, so it is the same on every run.
\<close>

theorem keywords_sorted:
  fixes R :: "('c::linorder) text_runtime"
  shows "\<exists>score matched missing.
     compare_keywords R resume_text job_desc_text = Inr (score, matched, missing) \<and>
     sorted_wrt (\<lambda>a b. (a, b) \<in> lexord {(u, v). u < v}) matched \<and>
     sorted_wrt (\<lambda>a b. (a, b) \<in> lexord {(u, v). u < v}) missing"
  unfolding compare_keywords_eq by (simp add: lexord_sorted_list_of_set)

text \<open>
  \<^bold>\<open>C7.\<close> The concrete scenario: the job description has the 10 tokens listed, 4 of
  them are matched, the score is 40.0 and the 6 missing keywords come in alphabetical
  order.
\<close>

theorem concrete_scenario:
  "clean_and_tokenize ascii_rt ''Looking for a Python developer with AWS and SQL skills'' =
     {''looking'', ''for'', ''a'', ''python'', ''developer'', ''with'', ''aws'', ''and'', ''sql'',
      ''skills''} \<and>
   card (clean_and_tokenize ascii_rt ''Looking for a Python developer with AWS and SQL skills'') = 10 \<and>
   compare_keywords ascii_rt ''Python developer with SQL experience'' ''Looking for a Python developer with AWS and SQL skills'' =
     Inr (PyFloat 40, [''developer'', ''python'', ''sql'', ''with''],
          [''a'', ''and'', ''aws'', ''for'', ''looking'', ''skills''])"
proof -
  have A: "clean_and_tokenize ascii_rt ''Python developer with SQL experience'' =
      set [''python'', ''developer'', ''with'', ''sql'', ''experience'']"
    by (simp only: clean_and_tokenize_def resume_tokens)
  have J: "clean_and_tokenize ascii_rt ''Looking for a Python developer with AWS and SQL skills'' =
      set [''looking'', ''for'', ''a'', ''python'', ''developer'', ''with'', ''aws'', ''and'', ''sql'',
           ''skills'']"
    by (simp only: clean_and_tokenize_def job_tokens)
  have c1: "card (set [''python'', ''developer'', ''with'', ''sql'', ''experience''] \<inter>
      set [''looking'', ''for'', ''a'', ''python'', ''developer'', ''with'', ''aws'', ''and'', ''sql'',
           ''skills'']) = 4"
    by code_simp
  have c2: "card (set [''looking'', ''for'', ''a'', ''python'', ''developer'', ''with'', ''aws'',
      ''and'', ''sql'', ''skills'']) = 10"
    by code_simp
  have s1: "sorted_list_of_set (set [''python'', ''developer'', ''with'', ''sql'', ''experience''] \<inter>
      set [''looking'', ''for'', ''a'', ''python'', ''developer'', ''with'', ''aws'', ''and'', ''sql'',
           ''skills'']) = [''developer'', ''python'', ''sql'', ''with'']"
    by code_simp
  have s2: "sorted_list_of_set
     (set [''looking'', ''for'', ''a'', ''python'', ''developer'', ''with'', ''aws'', ''and'', ''sql'',
           ''skills''] -
      set [''python'', ''developer'', ''with'', ''sql'', ''experience'']) =
      [''a'', ''and'', ''aws'', ''for'', ''looking'', ''skills'']"
    by code_simp
  have q: "rat_of_int (int 4) / rat_of_int (int 10) = 2 / 5" by simp
  have sc: "py_round (PyFloat (float_mul_int (fl64 (rat_of_int (int 4) / rat_of_int (int 10))) 100)) 2
      = PyFloat 40"
    unfolding q float_mul_int_def fl64_2_5
    by (simp only: of_int_numeral fl64_100 fl64_2_5_times_100 py_round_40)
  have r: "compare_keywords ascii_rt ''Python developer with SQL experience'' ''Looking for a Python developer with AWS and SQL skills'' =
     Inr (PyFloat 40, [''developer'', ''python'', ''sql'', ''with''],
          [''a'', ''and'', ''aws'', ''for'', ''looking'', ''skills''])"
    unfolding compare_keywords_eq A J c1 c2 s1 s2 sc by simp
  show ?thesis using r c2 by (simp add: J)
qed

text \<open>
  \<^bold>\<open>C8.\<close> For every pair of texts the score lies in the closed interval from 0 to 100.
\<close>

theorem score_in_range:
  fixes R :: "('c::linorder) text_runtime"
  shows "\<exists>score matched missing.
     compare_keywords R resume_text job_desc_text = Inr (score, matched, missing) \<and>
     0 \<le> num_value score \<and> num_value score \<le> 100"
proof (cases "clean_and_tokenize R job_desc_text = {}")
  case True
  then show ?thesis by (simp add: compare_keywords_eq)
next
  case False
  note b = score_float_bounds[OF card_matched_le[of R resume_text job_desc_text] card_tokens_pos[OF False]]
  show ?thesis
    unfolding compare_keywords_eq using False round2_bounds[OF b] by simp
qed

text \<open>
  \<^bold>\<open>C9.\<close> The tokens of two texts joined by a space are the tokens of the first
  together with the tokens of the second. This holds for every runtime in which the
  separator is not a word character and lowercasing the joined text lowercases the two
  parts and keeps the separator, as Python's \<^verbatim>\<open>lower\<close> does for a space, and it holds
  for all ASCII texts.
\<close>

theorem tokenize_space_join:
  "(\<not> is_word R sp \<and> str_lower R (s1 @ [sp] @ s2) = str_lower R s1 @ [sp] @ str_lower R s2 \<longrightarrow>
      clean_and_tokenize R (s1 @ [sp] @ s2) = clean_and_tokenize R s1 \<union> clean_and_tokenize R s2) \<and>
   clean_and_tokenize ascii_rt (a1 @ '' '' @ a2) =
     clean_and_tokenize ascii_rt a1 \<union> clean_and_tokenize ascii_rt a2"
proof -
  have g: "clean_and_tokenize Q (t1 @ [c] @ t2) = clean_and_tokenize Q t1 \<union> clean_and_tokenize Q t2"
    if "\<not> is_word Q c" "str_lower Q (t1 @ [c] @ t2) = str_lower Q t1 @ [c] @ str_lower Q t2"
    for Q :: "'b text_runtime" and c t1 t2
    using simple_tokenizer_append_sep[of Q c t1 t2] that by (simp add: clean_and_tokenize_def)
  have n: "\<not> is_word ascii_rt CHR '' ''" by code_simp
  have "ascii_lower CHR '' '' = CHR '' ''" by code_simp
  then have l: "str_lower ascii_rt (a1 @ '' '' @ a2) =
      str_lower ascii_rt a1 @ '' '' @ str_lower ascii_rt a2"
    by (simp add: ascii_rt_def)
  show ?thesis using g[of R sp s1 s2] g[OF n l] by blast
qed

text \<open>The ASCII space satisfies both conditions on the separator.\<close>

theorem tokenize_space_join_witness:
  "\<not> is_word ascii_rt CHR '' '' \<and>
   str_lower ascii_rt (''Python Dev'' @ '' '' @ ''SQL dev'') =
     str_lower ascii_rt ''Python Dev'' @ '' '' @ str_lower ascii_rt ''SQL dev'' \<and>
   clean_and_tokenize ascii_rt (''Python Dev'' @ '' '' @ ''SQL dev'') =
     clean_and_tokenize ascii_rt ''Python Dev'' \<union> clean_and_tokenize ascii_rt ''SQL dev''"
proof -
  have n: "\<not> is_word ascii_rt CHR '' ''" by code_simp
  have "ascii_lower CHR '' '' = CHR '' ''" by code_simp
  then have l: "str_lower ascii_rt (''Python Dev'' @ '' '' @ ''SQL dev'') =
      str_lower ascii_rt ''Python Dev'' @ '' '' @ str_lower ascii_rt ''SQL dev''"
    by (simp add: ascii_rt_def)
  show ?thesis
    using n l tokenize_space_join[of ascii_rt "CHR '' ''" "''Python Dev''" "''SQL dev''"]
    by (simp only: simp_thms)
qed

text \<open>
  \<^bold>\<open>C10.\<close> Two resume texts with the same token set give the same result against the
  same job description. More is true: the result depends on a resume only through the
  tokens it shares with the job description, so resume tokens that the job description
  does not have change no component of the result.
\<close>

theorem resume_influence:
  fixes R :: "('c::linorder) text_runtime"
  shows "(clean_and_tokenize R resume1 = clean_and_tokenize R resume2 \<longrightarrow>
            compare_keywords R resume1 job = compare_keywords R resume2 job) \<and>
         (clean_and_tokenize R resume1 \<inter> clean_and_tokenize R job =
            clean_and_tokenize R resume2 \<inter> clean_and_tokenize R job \<longrightarrow>
            compare_keywords R resume1 job = compare_keywords R resume2 job)"
proof -
  have d: "B - A = B - (A \<inter> B)" for A B :: "'c list set" by auto
  have "compare_keywords R resume1 job = compare_keywords R resume2 job"
    if "clean_and_tokenize R resume1 \<inter> clean_and_tokenize R job =
        clean_and_tokenize R resume2 \<inter> clean_and_tokenize R job"
  proof -
    have "clean_and_tokenize R job - clean_and_tokenize R resume1 =
          clean_and_tokenize R job - clean_and_tokenize R resume2"
      using that d[of "clean_and_tokenize R job" "clean_and_tokenize R resume1"]
        d[of "clean_and_tokenize R job" "clean_and_tokenize R resume2"] by simp
    then show ?thesis using that by (simp add: compare_keywords_eq)
  qed
  then show ?thesis by auto
qed

text \<open>
  Two resumes with the same tokens in another order and case, and two resumes that
  differ in a token the job description does not have.
\<close>

theorem resume_influence_witness:
  "clean_and_tokenize ascii_rt ''Python SQL'' = clean_and_tokenize ascii_rt ''sql, python; SQL'' \<and>
   compare_keywords ascii_rt ''Python SQL'' ''Python developer'' =
     compare_keywords ascii_rt ''sql, python; SQL'' ''Python developer'' \<and>
   clean_and_tokenize ascii_rt ''python java'' \<noteq> clean_and_tokenize ascii_rt ''python cobol'' \<and>
   clean_and_tokenize ascii_rt ''python java'' \<inter> clean_and_tokenize ascii_rt ''Python developer'' =
     clean_and_tokenize ascii_rt ''python cobol'' \<inter> clean_and_tokenize ascii_rt ''Python developer'' \<and>
   compare_keywords ascii_rt ''python java'' ''Python developer'' =
     compare_keywords ascii_rt ''python cobol'' ''Python developer''"
proof -
  have a: "simple_tokenizer ascii_rt ''Python SQL'' = [''python'', ''sql'']" by code_simp
  have b: "simple_tokenizer ascii_rt ''sql, python; SQL'' = [''sql'', ''python'', ''sql'']"
    by code_simp
  have c: "simple_tokenizer ascii_rt ''python java'' = [''python'', ''java'']" by code_simp
  have d: "simple_tokenizer ascii_rt ''python cobol'' = [''python'', ''cobol'']" by code_simp
  have j: "simple_tokenizer ascii_rt ''Python developer'' = [''python'', ''developer'']"
    by code_simp
  have "set [''python'', ''sql''] = set [''sql'', ''python'', ''sql'']" by auto
  then have h1: "clean_and_tokenize ascii_rt ''Python SQL'' =
      clean_and_tokenize ascii_rt ''sql, python; SQL''"
    by (simp only: clean_and_tokenize_def a b)
  have "''java'' \<in> set [''python'', ''java'']" and "''java'' \<notin> set [''python'', ''cobol'']"
    by simp_all
  then have ne: "set [''python'', ''java''] \<noteq> set [''python'', ''cobol'']" by metis
  have n: "clean_and_tokenize ascii_rt ''python java'' \<noteq>
      clean_and_tokenize ascii_rt ''python cobol''"
    unfolding clean_and_tokenize_def c d by (rule ne)
  have "set [''python'', ''java''] \<inter> set [''python'', ''developer''] =
      set [''python'', ''cobol''] \<inter> set [''python'', ''developer'']"
    by simp
  then have h2: "clean_and_tokenize ascii_rt ''python java'' \<inter>
      clean_and_tokenize ascii_rt ''Python developer'' =
      clean_and_tokenize ascii_rt ''python cobol'' \<inter>
      clean_and_tokenize ascii_rt ''Python developer''"
    by (simp only: clean_and_tokenize_def c d j)
  have e1: "compare_keywords ascii_rt ''Python SQL'' ''Python developer'' =
      compare_keywords ascii_rt ''sql, python; SQL'' ''Python developer''"
    using resume_influence[of ascii_rt "''Python SQL''" "''sql, python; SQL''" "''Python developer''"]
      h1 by (simp only: simp_thms)
  have e2: "compare_keywords ascii_rt ''python java'' ''Python developer'' =
      compare_keywords ascii_rt ''python cobol'' ''Python developer''"
    using resume_influence[of ascii_rt "''python java''" "''python cobol''" "''Python developer''"]
      h2 by (simp only: simp_thms)
  show ?thesis
    using h1 n h2 e1 e2 by (simp only: simp_thms)
qed

end
